theory Spec2Isabelle
  imports Main "HOL-Library.Word" "HOL-Library.Multiset"
begin

section \<open>Data model\<close>

text \<open>
  The two front ends (\<^verbatim>\<open>app.py\<close>, the web form, and
  \<^verbatim>\<open>pdf_color_page_analyzer.py\<close>, the desktop window) hold the same
  classification code and the same formatter. Python integers are \<open>int\<close>, the
  elements of a \<^verbatim>\<open>bytes\<close> object are 8-bit words read as integers
  in 0..255, exceptions are values of \<open>error\<close>.
\<close>

type_synonym byte = "8 word"

datatype error = IndexError | OSError | FitzError

text \<open>
  A pixmap as the code reads it: \<^verbatim>\<open>pix.colorspace\<close> is \<open>None\<close> or a
  colorspace object, of which only the channel count \<^verbatim>\<open>n\<close> is read;
  \<^verbatim>\<open>pix.samples\<close> is the interleaved sample buffer.
\<close>

record pixmap =
  colorspace :: "nat option"
  samples :: "byte list"

text \<open>The list a page number is appended to: \<^verbatim>\<open>color_pages\<close> or \<^verbatim>\<open>bw_pages\<close>.\<close>

datatype classification = Color | Monochrome

section \<open>The per-page classification\<close>

text \<open>Indexing \<^verbatim>\<open>xs[i]\<close> with a non-negative index: out of range raises IndexError.\<close>

definition getitem :: "'a list \<Rightarrow> nat \<Rightarrow> error + 'a" where
  "getitem xs i = (if i < length xs then Inr (xs ! i) else Inl IndexError)"

text \<open>
  Reading one sample of the buffer: the value as a Python integer, and the offset added to
  the list of offsets read so far.
\<close>

definition read_sample :: "byte list \<Rightarrow> nat \<Rightarrow> nat list \<Rightarrow> error + int \<times> nat list" where
  "read_sample img_data i reads =
     (case getitem img_data i of
        Inl e \<Rightarrow> Inl e
      | Inr v \<Rightarrow> Inr (uint v, reads @ [i]))"

text \<open>
  The test of one sampled triple:
  \<^verbatim>\<open>abs(r - g) > 5 or abs(r - b) > 5 or abs(g - b) > 5\<close>.
\<close>

definition rgb_differ :: "int \<Rightarrow> int \<Rightarrow> int \<Rightarrow> bool" where
  "rgb_differ r g b = (\<bar>r - g\<bar> > 5 \<or> \<bar>r - b\<bar> > 5 \<or> \<bar>g - b\<bar> > 5)"

text \<open>
  The sampling loop \<^verbatim>\<open>for i in range(0, len(img_data), 3 * 10)\<close> from offset
  \<open>i\<close> on. The result is the final value of \<^verbatim>\<open>is_color\<close> (True at the
  \<^verbatim>\<open>break\<close>) and the offsets read, in order.
\<close>

function sample_loop :: "byte list \<Rightarrow> nat \<Rightarrow> nat list \<Rightarrow> error + bool \<times> nat list" where
  "sample_loop img_data i reads =
     (if i < length img_data then
        (if i + 2 < length img_data then
           (case read_sample img_data i reads of
              Inl e \<Rightarrow> Inl e
            | Inr (r, reads1) \<Rightarrow>
                (case read_sample img_data (i + 1) reads1 of
                   Inl e \<Rightarrow> Inl e
                 | Inr (g, reads2) \<Rightarrow>
                     (case read_sample img_data (i + 2) reads2 of
                        Inl e \<Rightarrow> Inl e
                      | Inr (b, reads3) \<Rightarrow>
                          (if rgb_differ r g b then Inr (True, reads3)
                           else sample_loop img_data (i + 3 * 10) reads3))))
         else sample_loop img_data (i + 3 * 10) reads)
      else Inr (False, reads))"
  by pat_completeness auto
termination
  by (relation "measure (\<lambda>(img_data, i, reads). length img_data - i)") auto

declare sample_loop.simps [simp del]

text \<open>
  The classification of one pixmap (the body of the page loop from
  \<^verbatim>\<open>if pix.colorspace and pix.colorspace.n >= 3\<close> to the two appends): the list
  the page goes to, and the offsets of the samples read.
\<close>

definition classify_page :: "pixmap \<Rightarrow> error + classification \<times> nat list" where
  "classify_page pix =
     (case colorspace pix of
        None \<Rightarrow> Inr (Monochrome, [])
      | Some n \<Rightarrow>
          (if n \<ge> 3 then
             (case sample_loop (samples pix) 0 [] of
                Inl e \<Rightarrow> Inl e
              | Inr (is_color, reads) \<Rightarrow>
                  Inr (if is_color then Color else Monochrome, reads))
           else Inr (Monochrome, [])))"

section \<open>The document scan\<close>

text \<open>
  The rasterizer is an external collaborator. A document is what the scan observes of it:
  for each page index the outcome of \<^verbatim>\<open>doc.load_page(page_num)\<close> followed by
  \<^verbatim>\<open>page.get_pixmap(alpha=False)\<close> (an exception or a pixmap), and whether the
  clean-up after the loop (\<^verbatim>\<open>doc.close()\<close>, in the web form also
  \<^verbatim>\<open>os.unlink\<close>) raises. The input of a scan is the outcome of opening the
  file (in the web form: of writing the temporary file and opening it).
\<close>

record document =
  pages :: "(error + pixmap) list"
  close_result :: "error option"

text \<open>
  The effects of a scan on its surroundings, in the order they happen:
  \<^verbatim>\<open>st.progress(0)\<close>; \<^verbatim>\<open>progress_bar.progress((page_num + 1) / total_pages)\<close>,
  kept with the two operands of the division; the rendering of a page; the append of a
  page number to one of the two lists; the clean-up; and the report of an exception
  (\<^verbatim>\<open>st.error\<close>, \<^verbatim>\<open>messagebox.showerror\<close>).
\<close>

datatype event =
    CreateProgressBar
  | Progress nat nat
  | Render nat
  | Classified nat classification
  | Close
  | ShowError error

definition render_page :: "document \<Rightarrow> nat \<Rightarrow> error + pixmap" where
  "render_page doc page_num =
     (if page_num < length (pages doc) then pages doc ! page_num else Inl FitzError)"

text \<open>
  One iteration of the page loop from \<^verbatim>\<open>page = doc.load_page(page_num)\<close> on,
  the same text in both files. An exception leaves the loop; the log written so far stays.
\<close>

definition process_page ::
  "document \<Rightarrow> nat \<Rightarrow> int list \<times> int list \<Rightarrow> event list
     \<Rightarrow> (error + int list \<times> int list) \<times> event list" where
  "process_page doc page_num acc log =
     (case acc of (color_pages, bw_pages) \<Rightarrow>
        (case render_page doc page_num of
           Inl e \<Rightarrow> (Inl e, log @ [Render page_num])
         | Inr pix \<Rightarrow>
             (case classify_page pix of
                Inl e \<Rightarrow> (Inl e, log @ [Render page_num])
              | Inr (Color, reads) \<Rightarrow>
                  (Inr (color_pages @ [int page_num + 1], bw_pages),
                   log @ [Render page_num, Classified page_num Color])
              | Inr (Monochrome, reads) \<Rightarrow>
                  (Inr (color_pages, bw_pages @ [int page_num + 1]),
                   log @ [Render page_num, Classified page_num Monochrome]))))"

text \<open>
  The page loop of \<^verbatim>\<open>app.py\<close> over the page indices still to visit: the
  progress bar is updated first, then the page is processed.
\<close>

primrec app_loop ::
  "document \<Rightarrow> nat \<Rightarrow> nat list \<Rightarrow> int list \<times> int list \<Rightarrow> event list
     \<Rightarrow> (error + int list \<times> int list) \<times> event list" where
  "app_loop doc total_pages [] acc log = (Inr acc, log)"
| "app_loop doc total_pages (page_num # rest) acc log =
     (case process_page doc page_num acc (log @ [Progress (page_num + 1) total_pages]) of
        (Inl e, log') \<Rightarrow> (Inl e, log')
      | (Inr acc', log') \<Rightarrow> app_loop doc total_pages rest acc' log')"

text \<open>The page loop of \<^verbatim>\<open>pdf_color_page_analyzer.py\<close>: no progress report.\<close>

primrec desktop_loop ::
  "document \<Rightarrow> nat list \<Rightarrow> int list \<times> int list \<Rightarrow> event list
     \<Rightarrow> (error + int list \<times> int list) \<times> event list" where
  "desktop_loop doc [] acc log = (Inr acc, log)"
| "desktop_loop doc (page_num # rest) acc log =
     (case process_page doc page_num acc log of
        (Inl e, log') \<Rightarrow> (Inl e, log')
      | (Inr acc', log') \<Rightarrow> desktop_loop doc rest acc' log')"

text \<open>The body of the \<^verbatim>\<open>try\<close> block of \<^verbatim>\<open>analyze_pdf\<close> in \<^verbatim>\<open>app.py\<close>.\<close>

definition app_try ::
  "error + document \<Rightarrow> (error + int list \<times> int list \<times> nat) \<times> event list" where
  "app_try file =
     (case file of
        Inl e \<Rightarrow> (Inl e, [])
      | Inr doc \<Rightarrow>
          (let total_pages = length (pages doc) in
           case app_loop doc total_pages [0..<total_pages] ([], []) [CreateProgressBar] of
             (Inl e, log) \<Rightarrow> (Inl e, log)
           | (Inr (color_pages, bw_pages), log) \<Rightarrow>
               (case close_result doc of
                  Some e \<Rightarrow> (Inl e, log @ [Close])
                | None \<Rightarrow> (Inr (color_pages, bw_pages, total_pages), log @ [Close]))))"

text \<open>
  \<^verbatim>\<open>analyze_pdf\<close> of \<^verbatim>\<open>app.py\<close>: the result triple
  \<^verbatim>\<open>(color_pages, bw_pages, total_pages)\<close> and the log of effects.
\<close>

definition analyze_pdf_app ::
  "error + document \<Rightarrow> (int list \<times> int list \<times> nat) \<times> event list" where
  "analyze_pdf_app file =
     (case app_try file of
        (Inr result, log) \<Rightarrow> (result, log)
      | (Inl e, log) \<Rightarrow> (([], [], 0), log @ [ShowError e]))"

text \<open>The body of the \<^verbatim>\<open>try\<close> block in \<^verbatim>\<open>pdf_color_page_analyzer.py\<close>.\<close>

definition desktop_try ::
  "error + document \<Rightarrow> (error + int list \<times> int list) \<times> event list" where
  "desktop_try file_path =
     (case file_path of
        Inl e \<Rightarrow> (Inl e, [])
      | Inr doc \<Rightarrow>
          (case desktop_loop doc [0..<length (pages doc)] ([], []) [] of
             (Inl e, log) \<Rightarrow> (Inl e, log)
           | (Inr (color_pages, bw_pages), log) \<Rightarrow>
               (case close_result doc of
                  Some e \<Rightarrow> (Inl e, log @ [Close])
                | None \<Rightarrow> (Inr (color_pages, bw_pages), log @ [Close]))))"

text \<open>
  \<^verbatim>\<open>analyze_pdf\<close> of \<^verbatim>\<open>pdf_color_page_analyzer.py\<close>: the pair
  \<^verbatim>\<open>(color_pages, bw_pages)\<close> and the log of effects.
\<close>

definition analyze_pdf_desktop ::
  "error + document \<Rightarrow> (int list \<times> int list) \<times> event list" where
  "analyze_pdf_desktop file_path =
     (case desktop_try file_path of
        (Inr result, log) \<Rightarrow> (result, log)
      | (Inl e, log) \<Rightarrow> (([], []), log @ [ShowError e]))"

section \<open>The page-range formatter\<close>

text \<open>\<^verbatim>\<open>str\<close> of a Python integer: decimal digits, a minus sign when negative.\<close>

fun digits :: "nat \<Rightarrow> string" where
  "digits n =
     (if n < 10 then [''0123456789'' ! n]
      else digits (n div 10) @ [''0123456789'' ! (n mod 10)])"

declare digits.simps [simp del]

definition str :: "int \<Rightarrow> string" where
  "str i = (if i < 0 then ''-'' @ digits (nat (- i)) else digits (nat i))"

text \<open>\<^verbatim>\<open>sep.join(parts)\<close>.\<close>

fun join :: "string \<Rightarrow> string list \<Rightarrow> string" where
  "join sep [] = []"
| "join sep [x] = x"
| "join sep (x # y # ys) = x @ sep @ join sep (y # ys)"

text \<open>
  The text appended for a finished range:
  \<^verbatim>\<open>str(start)\<close> when \<^verbatim>\<open>start == end\<close>, else \<^verbatim>\<open>f"{start}-{end}"\<close>.
\<close>

definition range_text :: "int \<Rightarrow> int \<Rightarrow> string" where
  "range_text start end = (if start = end then str start else str start @ ''-'' @ str end)"

text \<open>
  The loop \<^verbatim>\<open>for i in range(1, len(page_list))\<close> from index \<open>i\<close> on, over
  the variables \<^verbatim>\<open>start\<close>, \<^verbatim>\<open>end\<close> and \<^verbatim>\<open>result\<close>.
\<close>

function format_loop ::
  "int list \<Rightarrow> nat \<Rightarrow> int \<Rightarrow> int \<Rightarrow> string list \<Rightarrow> error + int \<times> int \<times> string list" where
  "format_loop page_list i start end result =
     (if i < length page_list then
        (case getitem page_list i of
           Inl e \<Rightarrow> Inl e
         | Inr p \<Rightarrow>
             (if p = end + 1 then format_loop page_list (i + 1) start p result
              else format_loop page_list (i + 1) p p (result @ [range_text start end])))
      else Inr (start, end, result))"
  by pat_completeness auto
termination
  by (relation "measure (\<lambda>(page_list, i, start, end, result). length page_list - i)") auto

declare format_loop.simps [simp del]

text \<open>
  \<^verbatim>\<open>format_page_list\<close>, the same text in both files. \<^verbatim>\<open>page_list.sort()\<close>
  sorts the caller's list object in place, so the model returns, beside the string, the
  content of the caller's list after the call.
\<close>

definition format_page_list :: "int list \<Rightarrow> error + string \<times> int list" where
  "format_page_list page_list =
     (if page_list = [] then Inr ([], page_list)
      else
        (let page_list = sort page_list in
         case getitem page_list 0 of
           Inl e \<Rightarrow> Inl e
         | Inr start \<Rightarrow>
             (case format_loop page_list 1 start start [] of
                Inl e \<Rightarrow> Inl e
              | Inr (start, end, result) \<Rightarrow>
                  Inr (join '', '' (result @ [range_text start end]), page_list))))"

section \<open>Notions used in the statements\<close>

text \<open>
  The test of the loop body applied to the three samples at the offsets \<open>i\<close>,
  \<open>i + 1\<close>, \<open>i + 2\<close> of a buffer.
\<close>

definition sampled_differ :: "byte list \<Rightarrow> nat \<Rightarrow> bool" where
  "sampled_differ img_data i =
     rgb_differ (uint (img_data ! i)) (uint (img_data ! (i + 1))) (uint (img_data ! (i + 2)))"

text \<open>
  The list a rendered page goes to, and the list the page of a given index goes to.
  (The classification raises no exception, see \<open>classify_page_total\<close>; the
  \<open>Inl\<close> branches are never taken where these notions are used.)
\<close>

definition page_class :: "pixmap \<Rightarrow> classification" where
  "page_class pix = (case classify_page pix of Inr (c, reads) \<Rightarrow> c | Inl e \<Rightarrow> Monochrome)"

definition class_at :: "document \<Rightarrow> nat \<Rightarrow> classification" where
  "class_at doc page_num =
     (case render_page doc page_num of Inr pix \<Rightarrow> page_class pix | Inl e \<Rightarrow> Monochrome)"

text \<open>The page numbers of the page indices \<open>idx\<close> that go to the list \<open>c\<close>.\<close>

definition numbers_of :: "document \<Rightarrow> classification \<Rightarrow> nat list \<Rightarrow> int list" where
  "numbers_of doc c idx = map (\<lambda>i. int i + 1) (filter (\<lambda>i. class_at doc i = c) idx)"

text \<open>The effects of one successful iteration of the page loop of \<^verbatim>\<open>app.py\<close>.\<close>

definition app_page_events :: "document \<Rightarrow> nat \<Rightarrow> nat \<Rightarrow> event list" where
  "app_page_events doc total_pages page_num =
     [Progress (page_num + 1) total_pages, Render page_num,
      Classified page_num (class_at doc page_num)]"

definition desktop_page_events :: "document \<Rightarrow> nat \<Rightarrow> event list" where
  "desktop_page_events doc page_num =
     [Render page_num, Classified page_num (class_at doc page_num)]"

text \<open>The updates of the progress bar among the effects.\<close>

fun is_progress :: "event \<Rightarrow> bool" where
  "is_progress (Progress completed total_pages) = True"
| "is_progress e = False"

text \<open>
  Follows the spec's words ("progress is reported once per page, monotonically, after that
  page's classification completes -- never before"): every update of the progress bar
  that reports \<open>k\<close> completed pages comes later in the log than the classification of
  the page of index \<open>k - 1\<close>.
\<close>

definition progress_after_classification :: "event list \<Rightarrow> bool" where
  "progress_after_classification log =
     (\<forall>j<length log. \<forall>k t. log ! j = Progress k t \<longrightarrow>
        (\<exists>i<j. \<exists>c. log ! i = Classified (k - 1) c))"

text \<open>
  Follows the spec's words for the formatter: the sorted numbers are grouped into maximal
  runs of consecutive integers (a difference of exactly 1 between successive elements
  stays in the run), a run of length 1 is rendered as its single number and a longer run
  as first-last, and the renderings are joined with a comma and a space.
\<close>

fun runs :: "int list \<Rightarrow> int list list" where
  "runs [] = []"
| "runs [x] = [[x]]"
| "runs (x # y # zs) =
     (if y = x + 1 then
        (case runs (y # zs) of
           [] \<Rightarrow> [[x]]
         | r # rs \<Rightarrow> (x # r) # rs)
      else [x] # runs (y # zs))"

definition render_run :: "int list \<Rightarrow> string" where
  "render_run r = (if length r = 1 then str (hd r) else str (hd r) @ ''-'' @ str (last r))"

definition spec_format :: "int list \<Rightarrow> string" where
  "spec_format page_numbers = join '', '' (map render_run (runs (sort page_numbers)))"

text \<open>
  What makes \<open>runs\<close> the maximal runs of consecutive integers: within a run each
  element is its predecessor plus 1, and a run does not continue into the next one.
\<close>

fun consecutive :: "int list \<Rightarrow> bool" where
  "consecutive [] = True"
| "consecutive [x] = True"
| "consecutive (x # y # zs) = (y = x + 1 \<and> consecutive (y # zs))"

fun separated :: "int list list \<Rightarrow> bool" where
  "separated [] = True"
| "separated [r] = True"
| "separated (r # r' # rs) = (hd r' \<noteq> last r + 1 \<and> separated (r' # rs))"

text \<open>
  Follows the spec's words for the sampling: the buffer is a sequence of pixels of \<open>n\<close>
  interleaved channels, and the sampled triples are the leading 3 channels of every 10th
  pixel. \<open>pixel_channel n img_data p c\<close> is channel \<open>c\<close> of pixel \<open>p\<close>;
  \<open>tenth_pixels_differ\<close> holds when the test passes on the leading 3 channels of some
  pixel whose index is a multiple of 10.
\<close>

definition pixel_channel :: "nat \<Rightarrow> byte list \<Rightarrow> nat \<Rightarrow> nat \<Rightarrow> int" where
  "pixel_channel n img_data p c = uint (img_data ! (p * n + c))"

definition tenth_pixels_differ :: "nat \<Rightarrow> byte list \<Rightarrow> bool" where
  "tenth_pixels_differ n img_data =
     (\<exists>p\<in>set [0..<length img_data div n]. p mod 10 = 0 \<and>
        rgb_differ (pixel_channel n img_data p 0) (pixel_channel n img_data p 1)
          (pixel_channel n img_data p 2))"


text \<open>The offsets \<open>i\<close>, \<open>i + 1\<close>, \<open>i + 2\<close> of \<open>m\<close> triples at stride 30 from \<open>i\<close> on.\<close>

definition stride_offsets :: "nat \<Rightarrow> nat \<Rightarrow> nat list" where
  "stride_offsets i m = concat (map (\<lambda>k. [i + 30 * k, i + 30 * k + 1, i + 30 * k + 2]) [0..<m])"

section \<open>The sampling loop\<close>

lemma read_sample_in_range:
  "i < length img_data \<Longrightarrow> read_sample img_data i reads = Inr (uint (img_data ! i), reads @ [i])"
  by (simp add: read_sample_def getitem_def)

lemma sample_loop_step:
  "sample_loop img_data i reads =
     (if i + 2 < length img_data then
        (if sampled_differ img_data i then Inr (True, reads @ [i, i + 1, i + 2])
         else sample_loop img_data (i + 30) (reads @ [i, i + 1, i + 2]))
      else if i < length img_data then sample_loop img_data (i + 30) reads
      else Inr (False, reads))"
  by (subst sample_loop.simps) (simp add: read_sample_in_range sampled_differ_def)

lemma sample_loop_short:
  "length img_data \<le> i + 2 \<Longrightarrow> sample_loop img_data i reads = Inr (False, reads)"
proof (induction "length img_data - i" arbitrary: i rule: less_induct)
  case less
  show ?case
  proof (cases "i < length img_data")
    case True
    then have "sample_loop img_data (i + 30) reads = Inr (False, reads)"
      using less.prems by (intro less.hyps) auto
    then show ?thesis using less.prems True by (subst sample_loop_step) simp
  next
    case False
    then show ?thesis by (subst sample_loop_step) simp
  qed
qed

lemma sample_loop_total: "\<exists>c rd. sample_loop img_data i reads = Inr (c, rd)"
proof (induction "length img_data - i" arbitrary: i reads rule: less_induct)
  case less
  show ?case
  proof (cases "i + 2 < length img_data")
    case True
    then have "\<exists>c rd. sample_loop img_data (i + 30) (reads @ [i, i + 1, i + 2]) = Inr (c, rd)"
      by (intro less.hyps) auto
    then show ?thesis using True by (subst sample_loop_step) auto
  next
    case False
    then have "sample_loop img_data i reads = Inr (False, reads)"
      by (intro sample_loop_short) simp
    then show ?thesis by blast
  qed
qed

lemma sample_loop_hit:
  "i + 30 * k + 2 < length img_data \<Longrightarrow> sampled_differ img_data (i + 30 * k)
     \<Longrightarrow> \<exists>rd. sample_loop img_data i reads = Inr (True, rd)"
proof (induction k arbitrary: i reads)
  case 0
  then show ?case by (subst sample_loop_step) simp
next
  case (Suc k)
  have "\<exists>rd. sample_loop img_data (i + 30) (reads @ [i, i + 1, i + 2]) = Inr (True, rd)"
    using Suc.prems by (intro Suc.IH) (simp_all add: algebra_simps)
  then show ?case using Suc.prems by (subst sample_loop_step) simp
qed

lemma sample_loop_True:
  "sample_loop img_data i reads = Inr (True, rd)
     \<Longrightarrow> \<exists>k. i + 30 * k + 2 < length img_data \<and> sampled_differ img_data (i + 30 * k)"
proof (induction "length img_data - i" arbitrary: i reads rule: less_induct)
  case less
  show ?case
  proof (cases "i + 2 < length img_data")
    case True
    show ?thesis
    proof (cases "sampled_differ img_data i")
      case hit: True
      with True have "i + 30 * 0 + 2 < length img_data \<and> sampled_differ img_data (i + 30 * 0)"
        by simp
      then show ?thesis by blast
    next
      case False
      with True less.prems
      have "sample_loop img_data (i + 30) (reads @ [i, i + 1, i + 2]) = Inr (True, rd)"
        by (subst (asm) sample_loop_step) simp
      then obtain k where "i + 30 + 30 * k + 2 < length img_data"
          "sampled_differ img_data (i + 30 + 30 * k)"
        using less.hyps[of "i + 30"] True by (metis diff_less_mono2 add_lessD1 less_add_same_cancel1 zero_less_numeral)
      then have "i + 30 * Suc k + 2 < length img_data \<and> sampled_differ img_data (i + 30 * Suc k)"
        by (simp add: algebra_simps)
      then show ?thesis by blast
    qed
  next
    case False
    then have "sample_loop img_data i reads = Inr (False, reads)"
      by (intro sample_loop_short) simp
    with less.prems show ?thesis by simp
  qed
qed

section \<open>Properties of the per-page classification\<close>

lemma classify_page_total: "\<exists>c rd. classify_page pix = Inr (c, rd)"
proof -
  obtain c rd where "sample_loop (samples pix) 0 [] = Inr (c, rd)"
    using sample_loop_total by blast
  then show ?thesis
    by (simp add: classify_page_def split: option.splits)
qed

lemma classify_page_Color_iff:
  assumes "colorspace pix = Some n" "3 \<le> n"
  shows "(\<exists>rd. classify_page pix = Inr (Color, rd)) \<longleftrightarrow>
         (\<exists>k. 30 * k + 2 < length (samples pix) \<and> sampled_differ (samples pix) (30 * k))"
proof
  assume "\<exists>rd. classify_page pix = Inr (Color, rd)"
  then obtain rd where "sample_loop (samples pix) 0 [] = Inr (True, rd)"
    using assms by (auto simp: classify_page_def split: sum.splits if_splits)
  from sample_loop_True[OF this]
  show "\<exists>k. 30 * k + 2 < length (samples pix) \<and> sampled_differ (samples pix) (30 * k)"
    by simp
next
  assume "\<exists>k. 30 * k + 2 < length (samples pix) \<and> sampled_differ (samples pix) (30 * k)"
  then obtain k where "0 + 30 * k + 2 < length (samples pix)"
      "sampled_differ (samples pix) (0 + 30 * k)"
    by auto
  from sample_loop_hit[OF this, of "[]"] show "\<exists>rd. classify_page pix = Inr (Color, rd)"
    using assms by (auto simp: classify_page_def)
qed

lemma classify_page_Monochrome_iff:
  "(\<exists>rd. classify_page pix = Inr (Monochrome, rd)) \<longleftrightarrow>
   \<not> (\<exists>rd. classify_page pix = Inr (Color, rd))"
proof -
  obtain c rd where "classify_page pix = Inr (c, rd)"
    using classify_page_total by blast
  then show ?thesis by (cases c) auto
qed

lemma rgb_differ_iff:
  "rgb_differ r g b \<longleftrightarrow> 6 \<le> \<bar>r - g\<bar> \<or> 6 \<le> \<bar>r - b\<bar> \<or> 6 \<le> \<bar>g - b\<bar>"
  by (auto simp: rgb_differ_def)

text \<open>
  Claim C1. When \<^verbatim>\<open>pix.colorspace\<close> is absent, or its channel count is below 3,
  the page is classified Monochrome whatever the sample buffer holds, no sample is read,
  and the page loop appends the page number to \<^verbatim>\<open>bw_pages\<close>.
\<close>

theorem monochrome_without_three_channels:
  assumes "colorspace pix = None \<or> (\<exists>n. colorspace pix = Some n \<and> n < 3)"
  shows "classify_page pix = Inr (Monochrome, []) \<and>
         (render_page doc page_num = Inr pix \<longrightarrow>
            process_page doc page_num (color_pages, bw_pages) log =
              (Inr (color_pages, bw_pages @ [int page_num + 1]),
               log @ [Render page_num, Classified page_num Monochrome]))"
proof -
  have "classify_page pix = Inr (Monochrome, [])"
    using assms by (auto simp: classify_page_def)
  then show ?thesis by (simp add: process_page_def)
qed

theorem monochrome_without_three_channels_witness:
  "classify_page \<lparr>colorspace = Some 1, samples = [255, 0, 0]\<rparr> = Inr (Monochrome, []) \<and>
   classify_page \<lparr>colorspace = None, samples = [255, 0, 0]\<rparr> = Inr (Monochrome, []) \<and>
   process_page
       \<lparr>pages = [Inr \<lparr>colorspace = Some 2, samples = [255, 0, 0]\<rparr>], close_result = None\<rparr>
       0 ([], []) [] = (Inr ([], [1]), [Render 0, Classified 0 Monochrome])"
  using monochrome_without_three_channels
      [of "\<lparr>colorspace = Some 1, samples = [255, 0, 0]\<rparr>"]
    monochrome_without_three_channels
      [of "\<lparr>colorspace = None, samples = [255, 0, 0]\<rparr>"]
    monochrome_without_three_channels
      [of "\<lparr>colorspace = Some 2, samples = [255, 0, 0]\<rparr>"
        "\<lparr>pages = [Inr \<lparr>colorspace = Some 2, samples = [255, 0, 0]\<rparr>], close_result = None\<rparr>"
        0 "[]" "[]" "[]"]
  by (simp add: render_page_def)

text \<open>
  Claim C2. The threshold test is strictly greater than 5. The test of a triple holds
  exactly when one of the three absolute differences is 6 or more; with a colorspace of
  at least 3 channels the page is Color exactly when some sampled triple (offset
  \<open>30 * k\<close> with \<open>30 * k + 2\<close> in bounds) has a difference of 6 or more, and
  Monochrome exactly when every sampled triple has all three differences at most 5.
\<close>

theorem threshold_strictly_above_five:
  assumes "colorspace pix = Some n" and "3 \<le> n"
  shows "(rgb_differ r g b \<longleftrightarrow> 6 \<le> \<bar>r - g\<bar> \<or> 6 \<le> \<bar>r - b\<bar> \<or> 6 \<le> \<bar>g - b\<bar>) \<and>
    ((\<exists>reads. classify_page pix = Inr (Color, reads)) \<longleftrightarrow>
       (\<exists>k. 30 * k + 2 < length (samples pix) \<and>
          (6 \<le> \<bar>uint (samples pix ! (30 * k)) - uint (samples pix ! (30 * k + 1))\<bar> \<or>
           6 \<le> \<bar>uint (samples pix ! (30 * k)) - uint (samples pix ! (30 * k + 2))\<bar> \<or>
           6 \<le> \<bar>uint (samples pix ! (30 * k + 1)) - uint (samples pix ! (30 * k + 2))\<bar>))) \<and>
    ((\<exists>reads. classify_page pix = Inr (Monochrome, reads)) \<longleftrightarrow>
       (\<forall>k. 30 * k + 2 < length (samples pix) \<longrightarrow>
          \<bar>uint (samples pix ! (30 * k)) - uint (samples pix ! (30 * k + 1))\<bar> \<le> 5 \<and>
          \<bar>uint (samples pix ! (30 * k)) - uint (samples pix ! (30 * k + 2))\<bar> \<le> 5 \<and>
          \<bar>uint (samples pix ! (30 * k + 1)) - uint (samples pix ! (30 * k + 2))\<bar> \<le> 5))"
proof -
  have a: "rgb_differ r g b \<longleftrightarrow> 6 \<le> \<bar>r - g\<bar> \<or> 6 \<le> \<bar>r - b\<bar> \<or> 6 \<le> \<bar>g - b\<bar>"
    by (rule rgb_differ_iff)
  have b: "(\<exists>reads. classify_page pix = Inr (Color, reads)) \<longleftrightarrow>
       (\<exists>k. 30 * k + 2 < length (samples pix) \<and>
          (6 \<le> \<bar>uint (samples pix ! (30 * k)) - uint (samples pix ! (30 * k + 1))\<bar> \<or>
           6 \<le> \<bar>uint (samples pix ! (30 * k)) - uint (samples pix ! (30 * k + 2))\<bar> \<or>
           6 \<le> \<bar>uint (samples pix ! (30 * k + 1)) - uint (samples pix ! (30 * k + 2))\<bar>))"
    unfolding classify_page_Color_iff[OF assms] sampled_differ_def rgb_differ_iff
    by (simp add: add.assoc)
  have c: "(\<exists>reads. classify_page pix = Inr (Monochrome, reads)) \<longleftrightarrow>
       (\<forall>k. 30 * k + 2 < length (samples pix) \<longrightarrow>
          \<bar>uint (samples pix ! (30 * k)) - uint (samples pix ! (30 * k + 1))\<bar> \<le> 5 \<and>
          \<bar>uint (samples pix ! (30 * k)) - uint (samples pix ! (30 * k + 2))\<bar> \<le> 5 \<and>
          \<bar>uint (samples pix ! (30 * k + 1)) - uint (samples pix ! (30 * k + 2))\<bar> \<le> 5)"
    unfolding classify_page_Monochrome_iff b by (auto simp: not_le)
  from a b c show ?thesis by blast
qed

theorem threshold_strictly_above_five_witness:
  "classify_page \<lparr>colorspace = Some 3, samples = [10, 15, 10]\<rparr> = Inr (Monochrome, [0, 1, 2]) \<and>
   classify_page \<lparr>colorspace = Some 3, samples = [10, 16, 10]\<rparr> = Inr (Color, [0, 1, 2]) \<and>
   \<not> rgb_differ 10 15 10 \<and> rgb_differ 10 16 10"
  using threshold_strictly_above_five
      [of "\<lparr>colorspace = Some 3, samples = [10, 15, 10]\<rparr>" 3 10 15 10]
    threshold_strictly_above_five
      [of "\<lparr>colorspace = Some 3, samples = [10, 16, 10]\<rparr>" 3 10 16 10]
  by (simp add: classify_page_def sample_loop_step sampled_differ_def rgb_differ_def)

text \<open>
  Claim C4. The classification stops at the first hit: when the colorspace has at least 3
  channels and the first sampled triple (offsets 0, 1, 2) passes the test, the page is
  Color and the offsets read are exactly 0, 1 and 2, so the verdict is the same whatever
  bytes follow the first three.
\<close>

theorem first_hit_short_circuits:
  assumes "colorspace pix = Some n" and "3 \<le> n"
    and "samples pix = r # g # b # rest"
    and "rgb_differ (uint r) (uint g) (uint b)"
  shows "classify_page pix = Inr (Color, [0, 1, 2]) \<and>
         classify_page (pix\<lparr>samples := r # g # b # other\<rparr>) = Inr (Color, [0, 1, 2])"
  using assms by (simp add: classify_page_def sample_loop_step sampled_differ_def)

theorem first_hit_short_circuits_witness:
  "classify_page \<lparr>colorspace = Some 4, samples = [200, 10, 10, 0, 1, 2, 3]\<rparr>
     = Inr (Color, [0, 1, 2]) \<and>
   classify_page \<lparr>colorspace = Some 4, samples = [200, 10, 10]\<rparr> = Inr (Color, [0, 1, 2])"
  using first_hit_short_circuits
      [of "\<lparr>colorspace = Some 4, samples = [200, 10, 10, 0, 1, 2, 3]\<rparr>" 4 200 10 10
        "[0, 1, 2, 3]" "[]"]
  by (simp add: rgb_differ_def)

text \<open>
  Claim C10. A sample buffer of fewer than 3 bytes, the empty one included, is classified
  Monochrome without an exception and without a single sample read, also when the
  colorspace has 3 or more channels.
\<close>

theorem short_buffer_is_monochrome:
  assumes "length (samples pix) < 3"
  shows "classify_page pix = Inr (Monochrome, [])"
  using assms by (simp add: classify_page_def sample_loop_short split: option.splits)

theorem short_buffer_is_monochrome_witness:
  "classify_page \<lparr>colorspace = Some 3, samples = [255, 0]\<rparr> = Inr (Monochrome, []) \<and>
   classify_page \<lparr>colorspace = Some 4, samples = []\<rparr> = Inr (Monochrome, [])"
  using short_buffer_is_monochrome [of "\<lparr>colorspace = Some 3, samples = [255, 0]\<rparr>"]
    short_buffer_is_monochrome [of "\<lparr>colorspace = Some 4, samples = []\<rparr>"]
  by simp

section \<open>The sampling walk and the pixels\<close>

lemma stride_offsets_Suc:
  "stride_offsets i (Suc m) = [i, i + 1, i + 2] @ stride_offsets (i + 30) m"
proof -
  have "[0..<Suc m] = 0 # map Suc [0..<m]"
    by (simp add: upt_conv_Cons map_Suc_upt del: upt_Suc)
  then show ?thesis
    by (simp add: stride_offsets_def comp_def algebra_simps del: upt_Suc)
qed

text \<open>
  The offsets read by the loop are triples at stride 30, each with its third offset in
  bounds, whatever the channel count of the pixmap.
\<close>

lemma sample_loop_reads:
  "sample_loop img_data i reads = Inr (c, rd) \<Longrightarrow>
   \<exists>m. rd = reads @ stride_offsets i m \<and> (\<forall>k<m. i + 30 * k + 2 < length img_data)"
proof (induction "length img_data - i" arbitrary: i reads rule: less_induct)
  case less
  show ?case
  proof (cases "i + 2 < length img_data")
    case False
    then have "sample_loop img_data i reads = Inr (False, reads)"
      by (intro sample_loop_short) simp
    with less.prems have "rd = reads @ stride_offsets i 0"
      by (simp add: stride_offsets_def)
    then show ?thesis by blast
  next
    case True
    show ?thesis
    proof (cases "sampled_differ img_data i")
      case hit: True
      with True less.prems have "rd = reads @ stride_offsets i 1"
        by (subst (asm) sample_loop_step) (auto simp: stride_offsets_def)
      moreover have "\<forall>k<1. i + 30 * k + 2 < length img_data"
        using True by simp
      ultimately show ?thesis by blast
    next
      case False
      with True less.prems
      have "sample_loop img_data (i + 30) (reads @ [i, i + 1, i + 2]) = Inr (c, rd)"
        by (subst (asm) sample_loop_step) simp
      moreover have "length img_data - (i + 30) < length img_data - i"
        using True by simp
      ultimately obtain m where m: "rd = (reads @ [i, i + 1, i + 2]) @ stride_offsets (i + 30) m"
          "\<forall>k<m. i + 30 + 30 * k + 2 < length img_data"
        using less.hyps by blast
      have "rd = reads @ stride_offsets i (Suc m)"
        using m(1) by (simp add: stride_offsets_Suc)
      moreover have "\<forall>k<Suc m. i + 30 * k + 2 < length img_data"
      proof (intro allI impI)
        fix k assume "k < Suc m"
        show "i + 30 * k + 2 < length img_data"
        proof (cases k)
          case 0
          with True show ?thesis by simp
        next
          case (Suc j)
          with \<open>k < Suc m\<close> m(2) have "i + 30 + 30 * j + 2 < length img_data" by simp
          with Suc show ?thesis by (simp add: algebra_simps)
        qed
      qed
      ultimately show ?thesis by blast
    qed
  qed
qed

text \<open>
  With exactly 3 channels per pixel the stride of 30 samples is 10 pixels: the page is
  Color exactly when the leading 3 channels of some 10th pixel pass the test.
\<close>

lemma three_channels_every_tenth_pixel:
  assumes "colorspace pix = Some 3"
  shows "(\<exists>reads. classify_page pix = Inr (Color, reads)) \<longleftrightarrow>
         tenth_pixels_differ 3 (samples pix)"
proof -
  let ?img = "samples pix"
  have "(\<exists>k. 30 * k + 2 < length ?img \<and> sampled_differ ?img (30 * k)) \<longleftrightarrow>
        tenth_pixels_differ 3 ?img"
  proof
    assume "\<exists>k. 30 * k + 2 < length ?img \<and> sampled_differ ?img (30 * k)"
    then obtain k where k: "30 * k + 2 < length ?img" "sampled_differ ?img (30 * k)"
      by blast
    have "10 * k < length ?img div 3" using k(1) by arith
    moreover have "(10 * k) mod 10 = 0" by simp
    moreover have "rgb_differ (pixel_channel 3 ?img (10 * k) 0)
        (pixel_channel 3 ?img (10 * k) 1) (pixel_channel 3 ?img (10 * k) 2)"
      using k(2) by (simp add: sampled_differ_def pixel_channel_def)
    ultimately show "tenth_pixels_differ 3 ?img"
      unfolding tenth_pixels_differ_def by (intro bexI[of _ "10 * k"]) simp_all
  next
    assume "tenth_pixels_differ 3 ?img"
    then obtain p where p: "p < length ?img div 3" "p mod 10 = 0"
        "rgb_differ (pixel_channel 3 ?img p 0) (pixel_channel 3 ?img p 1)
           (pixel_channel 3 ?img p 2)"
      unfolding tenth_pixels_differ_def by auto
    have eq: "p * 3 = 30 * (p div 10)" using p(2) by arith
    have "30 * (p div 10) + 2 < length ?img" using p(1) eq by arith
    moreover have "sampled_differ ?img (30 * (p div 10))"
      using p(3) by (simp add: sampled_differ_def pixel_channel_def eq)
    ultimately show "\<exists>k. 30 * k + 2 < length ?img \<and> sampled_differ ?img (30 * k)"
      by blast
  qed
  then show ?thesis
    using classify_page_Color_iff[OF assms] by simp
qed


text \<open>
  The offsets a classification reads: triples \<open>i\<close>, \<open>i + 1\<close>, \<open>i + 2\<close> at the
  offsets 0, 30, 60, ... in ascending order, each read only with \<open>i + 2\<close> in bounds,
  up to the first hit or the end of the buffer.
\<close>

lemma reads_at_stride_30:
  assumes "classify_page pix = Inr (c, reads)"
  shows "\<exists>m. reads = stride_offsets 0 m \<and> (\<forall>k<m. 30 * k + 2 < length (samples pix))"
proof (cases "\<exists>n. colorspace pix = Some n \<and> 3 \<le> n")
  case True
  then obtain b where "sample_loop (samples pix) 0 [] = Inr (b, reads)"
    using assms by (auto simp: classify_page_def split: sum.splits)
  from sample_loop_reads[OF this] show ?thesis by simp
next
  case False
  then have "reads = stride_offsets 0 0"
    using assms by (auto simp: classify_page_def stride_offsets_def split: option.splits)
  then show ?thesis by blast
qed

lemma reads_at_stride_30_example:
  "classify_page \<lparr>colorspace = Some 3, samples = replicate 33 10\<rparr>
     = Inr (Monochrome, [0, 1, 2, 30, 31, 32]) \<and>
   stride_offsets 0 2 = [0, 1, 2, 30, 31, 32]"
proof -
  have a: "classify_page \<lparr>colorspace = Some 3, samples = replicate 33 10\<rparr>
      = Inr (Monochrome, [0, 1, 2, 30, 31, 32])"
    by (simp add: classify_page_def sample_loop_step sampled_differ_def rgb_differ_def)
  have b: "stride_offsets 0 2 = [0, 1, 2, 30, 31, 32]"
    by (simp add: stride_offsets_def upt_rec)
  from reads_at_stride_30[OF a] a b show ?thesis by simp
qed

lemma three_channels_every_tenth_pixel_example:
  "(\<exists>reads. classify_page \<lparr>colorspace = Some 3, samples = replicate 30 10 @ [10, 200, 10]\<rparr>
      = Inr (Color, reads)) \<and>
   tenth_pixels_differ 3 (replicate 30 10 @ [10, 200, 10])"
proof -
  have "classify_page \<lparr>colorspace = Some 3, samples = replicate 30 10 @ [10, 200, 10]\<rparr>
      = Inr (Color, [0, 1, 2, 30, 31, 32])"
    by (simp add: classify_page_def sample_loop_step sampled_differ_def rgb_differ_def
        nth_append)
  then show ?thesis
    using three_channels_every_tenth_pixel
      [of "\<lparr>colorspace = Some 3, samples = replicate 30 10 @ [10, 200, 10]\<rparr>"]
    by auto
qed




section \<open>The page loops\<close>

lemma process_page_rendered:
  assumes "render_page doc page_num = Inr pix"
  shows "process_page doc page_num (color_pages, bw_pages) log =
     (Inr (if class_at doc page_num = Color
           then (color_pages @ [int page_num + 1], bw_pages)
           else (color_pages, bw_pages @ [int page_num + 1])),
      log @ [Render page_num, Classified page_num (class_at doc page_num)])"
proof -
  obtain c rd where c: "classify_page pix = Inr (c, rd)"
    using classify_page_total by blast
  then have "class_at doc page_num = c"
    using assms by (simp add: class_at_def page_class_def)
  then show ?thesis
    using assms c by (cases c) (simp_all add: process_page_def)
qed

lemma process_page_failed:
  assumes "render_page doc page_num = Inl e"
  shows "process_page doc page_num acc log = (Inl e, log @ [Render page_num])"
  using assms by (cases acc) (simp add: process_page_def)

lemma numbers_of_Cons:
  "numbers_of doc c (i # idx) =
     (if class_at doc i = c then [int i + 1] else []) @ numbers_of doc c idx"
  by (simp add: numbers_of_def)

lemma numbers_of_Nil: "numbers_of doc c [] = []"
  by (simp add: numbers_of_def)

lemma class_at_cases: "class_at doc i \<noteq> Color \<Longrightarrow> class_at doc i = Monochrome"
  by (cases "class_at doc i") simp_all

lemma app_loop_rendered:
  assumes "\<forall>i\<in>set idx. \<not> isl (render_page doc i)"
  shows "app_loop doc total_pages idx (color_pages, bw_pages) log =
     (Inr (color_pages @ numbers_of doc Color idx, bw_pages @ numbers_of doc Monochrome idx),
      log @ concat (map (app_page_events doc total_pages) idx))"
  using assms
proof (induction idx arbitrary: color_pages bw_pages log)
  case Nil
  show ?case by (simp add: numbers_of_Nil)
next
  case (Cons i idx)
  then obtain pix where pix: "render_page doc i = Inr pix"
    by (cases "render_page doc i") auto
  have rest: "\<forall>j\<in>set idx. \<not> isl (render_page doc j)"
    using Cons.prems by simp
  show ?case
  proof (cases "class_at doc i = Color")
    case True
    then show ?thesis
      by (simp add: process_page_rendered[OF pix] Cons.IH[OF rest] numbers_of_Cons
          app_page_events_def)
  next
    case False
    then show ?thesis
      by (simp add: process_page_rendered[OF pix] Cons.IH[OF rest] numbers_of_Cons
          app_page_events_def class_at_cases)
  qed
qed

lemma desktop_loop_rendered:
  assumes "\<forall>i\<in>set idx. \<not> isl (render_page doc i)"
  shows "desktop_loop doc idx (color_pages, bw_pages) log =
     (Inr (color_pages @ numbers_of doc Color idx, bw_pages @ numbers_of doc Monochrome idx),
      log @ concat (map (desktop_page_events doc) idx))"
  using assms
proof (induction idx arbitrary: color_pages bw_pages log)
  case Nil
  show ?case by (simp add: numbers_of_Nil)
next
  case (Cons i idx)
  then obtain pix where pix: "render_page doc i = Inr pix"
    by (cases "render_page doc i") auto
  have rest: "\<forall>j\<in>set idx. \<not> isl (render_page doc j)"
    using Cons.prems by simp
  show ?case
  proof (cases "class_at doc i = Color")
    case True
    then show ?thesis
      by (simp add: process_page_rendered[OF pix] Cons.IH[OF rest] numbers_of_Cons
          desktop_page_events_def)
  next
    case False
    then show ?thesis
      by (simp add: process_page_rendered[OF pix] Cons.IH[OF rest] numbers_of_Cons
          desktop_page_events_def class_at_cases)
  qed
qed

lemma app_loop_append:
  assumes "\<forall>i\<in>set pre. \<not> isl (render_page doc i)"
  shows "app_loop doc total_pages (pre @ rest) (color_pages, bw_pages) log =
     app_loop doc total_pages rest
       (color_pages @ numbers_of doc Color pre, bw_pages @ numbers_of doc Monochrome pre)
       (log @ concat (map (app_page_events doc total_pages) pre))"
  using assms
proof (induction pre arbitrary: color_pages bw_pages log)
  case Nil
  show ?case by (simp add: numbers_of_Nil)
next
  case (Cons i pre)
  then obtain pix where pix: "render_page doc i = Inr pix"
    by (cases "render_page doc i") auto
  have rest: "\<forall>j\<in>set pre. \<not> isl (render_page doc j)"
    using Cons.prems by simp
  show ?case
  proof (cases "class_at doc i = Color")
    case True
    then show ?thesis
      by (simp add: process_page_rendered[OF pix] Cons.IH[OF rest] numbers_of_Cons
          app_page_events_def)
  next
    case False
    then show ?thesis
      by (simp add: process_page_rendered[OF pix] Cons.IH[OF rest] numbers_of_Cons
          app_page_events_def class_at_cases)
  qed
qed

lemma desktop_loop_append:
  assumes "\<forall>i\<in>set pre. \<not> isl (render_page doc i)"
  shows "desktop_loop doc (pre @ rest) (color_pages, bw_pages) log =
     desktop_loop doc rest
       (color_pages @ numbers_of doc Color pre, bw_pages @ numbers_of doc Monochrome pre)
       (log @ concat (map (desktop_page_events doc) pre))"
  using assms
proof (induction pre arbitrary: color_pages bw_pages log)
  case Nil
  show ?case by (simp add: numbers_of_Nil)
next
  case (Cons i pre)
  then obtain pix where pix: "render_page doc i = Inr pix"
    by (cases "render_page doc i") auto
  have rest: "\<forall>j\<in>set pre. \<not> isl (render_page doc j)"
    using Cons.prems by simp
  show ?case
  proof (cases "class_at doc i = Color")
    case True
    then show ?thesis
      by (simp add: process_page_rendered[OF pix] Cons.IH[OF rest] numbers_of_Cons
          desktop_page_events_def)
  next
    case False
    then show ?thesis
      by (simp add: process_page_rendered[OF pix] Cons.IH[OF rest] numbers_of_Cons
          desktop_page_events_def class_at_cases)
  qed
qed

lemma app_loop_failed:
  assumes "\<forall>i\<in>set pre. \<not> isl (render_page doc i)" and "render_page doc k = Inl e"
  shows "app_loop doc total_pages (pre @ k # rest) (color_pages, bw_pages) log =
     (Inl e, log @ concat (map (app_page_events doc total_pages) pre)
               @ [Progress (k + 1) total_pages, Render k])"
  by (simp add: app_loop_append[OF assms(1)] process_page_failed[OF assms(2)])

lemma desktop_loop_failed:
  assumes "\<forall>i\<in>set pre. \<not> isl (render_page doc i)" and "render_page doc k = Inl e"
  shows "desktop_loop doc (pre @ k # rest) (color_pages, bw_pages) log =
     (Inl e, log @ concat (map (desktop_page_events doc) pre) @ [Render k])"
  by (simp add: desktop_loop_append[OF assms(1)] process_page_failed[OF assms(2)])

lemma render_page_upt:
  "(\<forall>i\<in>set [0..<length (pages doc)]. \<not> isl (render_page doc i)) \<longleftrightarrow>
   (\<forall>p\<in>set (pages doc). \<not> isl p)"
proof
  assume a: "\<forall>i\<in>set [0..<length (pages doc)]. \<not> isl (render_page doc i)"
  show "\<forall>p\<in>set (pages doc). \<not> isl p"
  proof
    fix p assume "p \<in> set (pages doc)"
    then obtain i where "i < length (pages doc)" "pages doc ! i = p"
      by (auto simp: in_set_conv_nth)
    then show "\<not> isl p" using a by (auto simp: render_page_def)
  qed
next
  assume "\<forall>p\<in>set (pages doc). \<not> isl p"
  then show "\<forall>i\<in>set [0..<length (pages doc)]. \<not> isl (render_page doc i)"
    by (simp add: render_page_def)
qed

text \<open>The first page that fails to render splits the page indices.\<close>

lemma upt_split_at:
  assumes "k < n"
  shows "[0..<n] = [0..<k] @ k # [Suc k..<n]"
proof -
  have "[0..<k + (n - k)] = [0..<k] @ [k..<k + (n - k)]"
    by (rule upt_add_eq_append) simp
  then have "[0..<n] = [0..<k] @ [k..<n]"
    using assms by simp
  then show ?thesis
    using assms by (simp add: upt_conv_Cons)
qed

lemma first_failure:
  assumes "\<exists>p\<in>set (pages doc). isl p"
  shows "\<exists>k e. k < length (pages doc) \<and> render_page doc k = Inl e \<and>
           (\<forall>i\<in>set [0..<k]. \<not> isl (render_page doc i)) \<and>
           [0..<length (pages doc)] = [0..<k] @ k # [Suc k..<length (pages doc)]"
proof -
  define P where "P i \<longleftrightarrow> i < length (pages doc) \<and> isl (render_page doc i)" for i
  obtain p where "p \<in> set (pages doc)" "isl p"
    using assms by blast
  then obtain j where "j < length (pages doc)" "pages doc ! j = p"
    by (auto simp: in_set_conv_nth)
  then have "P j"
    using \<open>isl p\<close> by (simp add: P_def render_page_def)
  define k where "k = (LEAST i. P i)"
  have Pk: "P k"
    unfolding k_def using \<open>P j\<close> by (rule LeastI)
  have least: "\<not> P i" if "i < k" for i
    using that unfolding k_def by (rule not_less_Least)
  have klt: "k < length (pages doc)"
    using Pk by (simp add: P_def)
  obtain e where e: "render_page doc k = Inl e"
    using Pk by (cases "render_page doc k") (auto simp: P_def)
  have before: "\<forall>i\<in>set [0..<k]. \<not> isl (render_page doc i)"
  proof
    fix i assume "i \<in> set [0..<k]"
    then have "i < k" by simp
    then have "\<not> P i" by (rule least)
    moreover have "i < length (pages doc)" using \<open>i < k\<close> klt by simp
    ultimately show "\<not> isl (render_page doc i)" by (simp add: P_def)
  qed
  from klt e before upt_split_at[OF klt] show ?thesis by blast
qed

section \<open>Properties of the document scan\<close>

lemma app_try_rendered:
  assumes "\<forall>p\<in>set (pages doc). \<not> isl p"
  shows "app_try (Inr doc) =
     (case close_result doc of
        Some e \<Rightarrow> Inl e
      | None \<Rightarrow> Inr (numbers_of doc Color [0..<length (pages doc)],
                       numbers_of doc Monochrome [0..<length (pages doc)],
                       length (pages doc)),
      CreateProgressBar
        # concat (map (app_page_events doc (length (pages doc))) [0..<length (pages doc)])
        @ [Close])"
proof -
  have "\<forall>i\<in>set [0..<length (pages doc)]. \<not> isl (render_page doc i)"
    using assms by (simp only: render_page_upt)
  then show ?thesis
    by (simp add: app_try_def Let_def app_loop_rendered split: option.splits)
qed

lemma desktop_try_rendered:
  assumes "\<forall>p\<in>set (pages doc). \<not> isl p"
  shows "desktop_try (Inr doc) =
     (case close_result doc of
        Some e \<Rightarrow> Inl e
      | None \<Rightarrow> Inr (numbers_of doc Color [0..<length (pages doc)],
                       numbers_of doc Monochrome [0..<length (pages doc)]),
      concat (map (desktop_page_events doc) [0..<length (pages doc)]) @ [Close])"
proof -
  have "\<forall>i\<in>set [0..<length (pages doc)]. \<not> isl (render_page doc i)"
    using assms by (simp only: render_page_upt)
  then show ?thesis
    by (simp add: desktop_try_def desktop_loop_rendered split: option.splits)
qed

lemma numbers_of_set:
  "set (numbers_of doc c [0..<n]) = {int i + 1 | i. i < n \<and> class_at doc i = c}"
  by (auto simp: numbers_of_def)

lemma numbers_of_union:
  "set (numbers_of doc Color [0..<n]) \<union> set (numbers_of doc Monochrome [0..<n]) = {1..int n}"
proof
  show "set (numbers_of doc Color [0..<n]) \<union> set (numbers_of doc Monochrome [0..<n])
          \<subseteq> {1..int n}"
    by (auto simp: numbers_of_set)
  show "{1..int n} \<subseteq>
          set (numbers_of doc Color [0..<n]) \<union> set (numbers_of doc Monochrome [0..<n])"
  proof
    fix x assume "x \<in> {1..int n}"
    then have x: "x = int (nat (x - 1)) + 1" "nat (x - 1) < n"
      by auto
    show "x \<in> set (numbers_of doc Color [0..<n]) \<union> set (numbers_of doc Monochrome [0..<n])"
    proof (cases "class_at doc (nat (x - 1))")
      case Color
      with x have "x \<in> set (numbers_of doc Color [0..<n])"
        unfolding numbers_of_set by blast
      then show ?thesis by simp
    next
      case Monochrome
      with x have "x \<in> set (numbers_of doc Monochrome [0..<n])"
        unfolding numbers_of_set by blast
      then show ?thesis by simp
    qed
  qed
qed

lemma numbers_of_disjoint:
  "set (numbers_of doc Color idx) \<inter> set (numbers_of doc Monochrome idx) = {}"
  by (auto simp: numbers_of_def)

lemma numbers_of_distinct: "distinct idx \<Longrightarrow> distinct (numbers_of doc c idx)"
  by (simp add: numbers_of_def distinct_map inj_on_def)

lemma numbers_of_length:
  "length (numbers_of doc Color idx) + length (numbers_of doc Monochrome idx) = length idx"
proof (induction idx)
  case Nil
  show ?case by (simp add: numbers_of_Nil)
next
  case (Cons i idx)
  then show ?case
    by (cases "class_at doc i") (simp_all add: numbers_of_Cons)
qed

text \<open>
  Claim C6. When the document opens, every page renders and the clean-up succeeds, the
  scan of either front end returns the page numbers of the Color pages and of the
  Monochrome pages, \<open>index + 1\<close> for each page index, in ascending order. The two lists
  cover \<open>1..total\<close>, share no element, repeat none, and their lengths add up to the
  page count, which is the \<^verbatim>\<open>total_pages\<close> that \<^verbatim>\<open>app.py\<close> returns.
\<close>

theorem scan_partitions_pages:
  assumes "\<forall>p\<in>set (pages doc). \<not> isl p" and "close_result doc = None"
  shows "\<exists>color_pages bw_pages.
     fst (analyze_pdf_app (Inr doc)) = (color_pages, bw_pages, length (pages doc)) \<and>
     fst (analyze_pdf_desktop (Inr doc)) = (color_pages, bw_pages) \<and>
     color_pages = numbers_of doc Color [0..<length (pages doc)] \<and>
     bw_pages = numbers_of doc Monochrome [0..<length (pages doc)] \<and>
     set color_pages \<union> set bw_pages = {1..int (length (pages doc))} \<and>
     set color_pages \<inter> set bw_pages = {} \<and>
     distinct color_pages \<and> distinct bw_pages \<and>
     length color_pages + length bw_pages = length (pages doc)"
proof -
  let ?idx = "[0..<length (pages doc)]"
  have app: "fst (analyze_pdf_app (Inr doc)) =
      (numbers_of doc Color ?idx, numbers_of doc Monochrome ?idx, length (pages doc))"
    by (simp add: analyze_pdf_app_def app_try_rendered[OF assms(1)] assms(2))
  have desktop: "fst (analyze_pdf_desktop (Inr doc)) =
      (numbers_of doc Color ?idx, numbers_of doc Monochrome ?idx)"
    by (simp add: analyze_pdf_desktop_def desktop_try_rendered[OF assms(1)] assms(2))
  have len: "length (numbers_of doc Color ?idx) + length (numbers_of doc Monochrome ?idx)
      = length (pages doc)"
    using numbers_of_length[of doc ?idx] by simp
  from app desktop len show ?thesis
    by (simp add: numbers_of_union numbers_of_disjoint numbers_of_distinct)
qed

theorem scan_partitions_pages_witness:
  "fst (analyze_pdf_app (Inr \<lparr>pages =
       [Inr \<lparr>colorspace = Some 3, samples = [200, 10, 10]\<rparr>,
        Inr \<lparr>colorspace = Some 1, samples = [200, 10, 10]\<rparr>,
        Inr \<lparr>colorspace = Some 3, samples = [10, 10, 10]\<rparr>], close_result = None\<rparr>))
     = ([1], [2, 3], 3) \<and>
   fst (analyze_pdf_desktop (Inr \<lparr>pages =
       [Inr \<lparr>colorspace = Some 3, samples = [200, 10, 10]\<rparr>,
        Inr \<lparr>colorspace = Some 1, samples = [200, 10, 10]\<rparr>,
        Inr \<lparr>colorspace = Some 3, samples = [10, 10, 10]\<rparr>], close_result = None\<rparr>))
     = ([1], [2, 3])"
  using scan_partitions_pages [of "\<lparr>pages =
       [Inr \<lparr>colorspace = Some 3, samples = [200, 10, 10]\<rparr>,
        Inr \<lparr>colorspace = Some 1, samples = [200, 10, 10]\<rparr>,
        Inr \<lparr>colorspace = Some 3, samples = [10, 10, 10]\<rparr>], close_result = None\<rparr>"]
  by (simp add: numbers_of_def class_at_def render_page_def page_class_def classify_page_def
      sample_loop_step sampled_differ_def rgb_differ_def upt_rec)

lemma app_try_failed:
  assumes "\<exists>p\<in>set (pages doc). isl p"
  shows "\<exists>e log. app_try (Inr doc) = (Inl e, log)"
proof -
  obtain k e where k: "render_page doc k = Inl e"
      "\<forall>i\<in>set [0..<k]. \<not> isl (render_page doc i)"
      "[0..<length (pages doc)] = [0..<k] @ k # [Suc k..<length (pages doc)]"
    using first_failure[OF assms] by blast
  have "app_loop doc (length (pages doc)) [0..<length (pages doc)] ([], [])
          [CreateProgressBar] =
        (Inl e, [CreateProgressBar]
           @ concat (map (app_page_events doc (length (pages doc))) [0..<k])
           @ [Progress (k + 1) (length (pages doc)), Render k])"
    by (subst k(3)) (rule app_loop_failed[OF k(2) k(1)])
  then show ?thesis
    by (simp add: app_try_def Let_def)
qed

lemma desktop_try_failed:
  assumes "\<exists>p\<in>set (pages doc). isl p"
  shows "\<exists>e log. desktop_try (Inr doc) = (Inl e, log)"
proof -
  obtain k e where k: "render_page doc k = Inl e"
      "\<forall>i\<in>set [0..<k]. \<not> isl (render_page doc i)"
      "[0..<length (pages doc)] = [0..<k] @ k # [Suc k..<length (pages doc)]"
    using first_failure[OF assms] by blast
  have "desktop_loop doc [0..<length (pages doc)] ([], []) [] =
        (Inl e, [] @ concat (map (desktop_page_events doc) [0..<k]) @ [Render k])"
    by (subst k(3)) (rule desktop_loop_failed[OF k(2) k(1)])
  then show ?thesis
    by (simp add: desktop_try_def)
qed

text \<open>
  A scan ends without an exception exactly when the document opens, every page renders
  and the clean-up succeeds.
\<close>

lemma app_try_succeeds_iff:
  "(\<exists>result log. app_try file = (Inr result, log)) \<longleftrightarrow>
   (\<exists>doc. file = Inr doc \<and> (\<forall>p\<in>set (pages doc). \<not> isl p) \<and> close_result doc = None)"
proof (cases "file")
  case (Inl e)
  then show ?thesis by (simp add: app_try_def)
next
  case (Inr doc)
  show ?thesis
  proof (cases "\<forall>p\<in>set (pages doc). \<not> isl p")
    case True
    then show ?thesis
      using Inr by (cases "close_result doc") (simp_all add: app_try_rendered)
  next
    case False
    then have "\<exists>p\<in>set (pages doc). isl p" by simp
    from app_try_failed[OF this] False Inr show ?thesis by auto
  qed
qed

lemma desktop_try_succeeds_iff:
  "(\<exists>result log. desktop_try file = (Inr result, log)) \<longleftrightarrow>
   (\<exists>doc. file = Inr doc \<and> (\<forall>p\<in>set (pages doc). \<not> isl p) \<and> close_result doc = None)"
proof (cases "file")
  case (Inl e)
  then show ?thesis by (simp add: desktop_try_def)
next
  case (Inr doc)
  show ?thesis
  proof (cases "\<forall>p\<in>set (pages doc). \<not> isl p")
    case True
    then show ?thesis
      using Inr by (cases "close_result doc") (simp_all add: desktop_try_rendered)
  next
    case False
    then have "\<exists>p\<in>set (pages doc). isl p" by simp
    from desktop_try_failed[OF this] False Inr show ?thesis by auto
  qed
qed

lemma app_try_first_failure:
  assumes "k < length (pages doc)" and "pages doc ! k = Inl e"
    and "\<forall>i<k. \<not> isl (pages doc ! i)"
  shows "app_try (Inr doc) =
     (Inl e, CreateProgressBar
        # concat (map (app_page_events doc (length (pages doc))) [0..<k])
        @ [Progress (k + 1) (length (pages doc)), Render k])"
proof -
  have fail: "render_page doc k = Inl e"
    using assms(1,2) by (simp add: render_page_def)
  have before: "\<forall>i\<in>set [0..<k]. \<not> isl (render_page doc i)"
    using assms(1,3) by (simp add: render_page_def)
  have "app_loop doc (length (pages doc)) [0..<length (pages doc)] ([], [])
          [CreateProgressBar] =
        (Inl e, [CreateProgressBar]
           @ concat (map (app_page_events doc (length (pages doc))) [0..<k])
           @ [Progress (k + 1) (length (pages doc)), Render k])"
    by (subst upt_split_at[OF assms(1)]) (rule app_loop_failed[OF before fail])
  then show ?thesis
    by (simp add: app_try_def Let_def)
qed

lemma desktop_try_first_failure:
  assumes "k < length (pages doc)" and "pages doc ! k = Inl e"
    and "\<forall>i<k. \<not> isl (pages doc ! i)"
  shows "desktop_try (Inr doc) =
     (Inl e, concat (map (desktop_page_events doc) [0..<k]) @ [Render k])"
proof -
  have fail: "render_page doc k = Inl e"
    using assms(1,2) by (simp add: render_page_def)
  have before: "\<forall>i\<in>set [0..<k]. \<not> isl (render_page doc i)"
    using assms(1,3) by (simp add: render_page_def)
  have "desktop_loop doc [0..<length (pages doc)] ([], []) [] =
        (Inl e, [] @ concat (map (desktop_page_events doc) [0..<k]) @ [Render k])"
    by (subst upt_split_at[OF assms(1)]) (rule desktop_loop_failed[OF before fail])
  then show ?thesis
    by (simp add: desktop_try_def)
qed

lemma first_failing_page:
  fixes doc :: document
  assumes "\<exists>p\<in>set (pages doc). isl p"
  shows "\<exists>k e. k < length (pages doc) \<and> pages doc ! k = Inl e \<and>
           (\<forall>i<k. \<not> isl (pages doc ! i))"
proof -
  obtain k e where k: "k < length (pages doc)" "render_page doc k = Inl e"
      "\<forall>i\<in>set [0..<k]. \<not> isl (render_page doc i)"
    using first_failure[OF assms] by blast
  have "pages doc ! k = Inl e"
    using k(1,2) by (simp add: render_page_def)
  moreover have "\<forall>i<k. \<not> isl (pages doc ! i)"
    using k(1,3) by (simp add: render_page_def)
  ultimately show ?thesis using k(1) by blast
qed

text \<open>
  Claim C7. When opening the document fails, the scan of either front end does nothing
  but report the exception, and returns the empty result (both lists empty, and in
  \<^verbatim>\<open>app.py\<close> a page count of 0). When some page fails to render, the scan stops
  at the first such page \<open>k\<close>: the pages before it are rendered and classified, page
  \<open>k\<close> is attempted, no later page is touched, the exception of page \<open>k\<close> is
  reported as the last effect, and the result is empty, whatever was classified before.
\<close>

theorem failure_returns_empty_result:
  "analyze_pdf_app (Inl e) = (([], [], 0), [ShowError e]) \<and>
   analyze_pdf_desktop (Inl e) = (([], []), [ShowError e]) \<and>
   ((\<exists>p\<in>set (pages doc). isl p) \<longrightarrow>
      (\<exists>k e'. k < length (pages doc) \<and> pages doc ! k = Inl e' \<and>
         (\<forall>i<k. \<not> isl (pages doc ! i)) \<and>
         analyze_pdf_app (Inr doc) =
           (([], [], 0),
            CreateProgressBar
              # concat (map (\<lambda>i. [Progress (i + 1) (length (pages doc)), Render i,
                                  Classified i (class_at doc i)]) [0..<k])
              @ [Progress (k + 1) (length (pages doc)), Render k, ShowError e']) \<and>
         analyze_pdf_desktop (Inr doc) =
           (([], []),
            concat (map (\<lambda>i. [Render i, Classified i (class_at doc i)]) [0..<k])
              @ [Render k, ShowError e'])))"
proof -
  have opened: "analyze_pdf_app (Inl e) = (([], [], 0), [ShowError e])"
      "analyze_pdf_desktop (Inl e) = (([], []), [ShowError e])"
    by (simp_all add: analyze_pdf_app_def app_try_def analyze_pdf_desktop_def desktop_try_def)
  have shape: "app_page_events doc (length (pages doc)) =
      (\<lambda>i. [Progress (i + 1) (length (pages doc)), Render i, Classified i (class_at doc i)])"
      "desktop_page_events doc = (\<lambda>i. [Render i, Classified i (class_at doc i)])"
    by (rule ext, simp add: app_page_events_def, rule ext, simp add: desktop_page_events_def)
  have rendered: "(\<exists>p\<in>set (pages doc). isl p) \<longrightarrow>
      (\<exists>k e'. k < length (pages doc) \<and> pages doc ! k = Inl e' \<and>
         (\<forall>i<k. \<not> isl (pages doc ! i)) \<and>
         analyze_pdf_app (Inr doc) =
           (([], [], 0),
            CreateProgressBar
              # concat (map (\<lambda>i. [Progress (i + 1) (length (pages doc)), Render i,
                                  Classified i (class_at doc i)]) [0..<k])
              @ [Progress (k + 1) (length (pages doc)), Render k, ShowError e']) \<and>
         analyze_pdf_desktop (Inr doc) =
           (([], []),
            concat (map (\<lambda>i. [Render i, Classified i (class_at doc i)]) [0..<k])
              @ [Render k, ShowError e']))"
  proof
    assume "\<exists>p\<in>set (pages doc). isl p"
    then obtain k e' where k: "k < length (pages doc)" "pages doc ! k = Inl e'"
        "\<forall>i<k. \<not> isl (pages doc ! i)"
      using first_failing_page by blast
    have "analyze_pdf_app (Inr doc) =
           (([], [], 0),
            CreateProgressBar
              # concat (map (\<lambda>i. [Progress (i + 1) (length (pages doc)), Render i,
                                  Classified i (class_at doc i)]) [0..<k])
              @ [Progress (k + 1) (length (pages doc)), Render k, ShowError e'])"
      by (simp add: analyze_pdf_app_def app_try_first_failure[OF k] shape)
    moreover have "analyze_pdf_desktop (Inr doc) =
           (([], []),
            concat (map (\<lambda>i. [Render i, Classified i (class_at doc i)]) [0..<k])
              @ [Render k, ShowError e'])"
      by (simp add: analyze_pdf_desktop_def desktop_try_first_failure[OF k] shape)
    ultimately show "\<exists>k e'. k < length (pages doc) \<and> pages doc ! k = Inl e' \<and>
         (\<forall>i<k. \<not> isl (pages doc ! i)) \<and>
         analyze_pdf_app (Inr doc) =
           (([], [], 0),
            CreateProgressBar
              # concat (map (\<lambda>i. [Progress (i + 1) (length (pages doc)), Render i,
                                  Classified i (class_at doc i)]) [0..<k])
              @ [Progress (k + 1) (length (pages doc)), Render k, ShowError e']) \<and>
         analyze_pdf_desktop (Inr doc) =
           (([], []),
            concat (map (\<lambda>i. [Render i, Classified i (class_at doc i)]) [0..<k])
              @ [Render k, ShowError e'])"
      using k by blast
  qed
  from opened rendered show ?thesis by blast
qed

theorem failure_returns_empty_result_witness:
  "analyze_pdf_app (Inr \<lparr>pages =
       [Inr \<lparr>colorspace = Some 3, samples = [200, 10, 10]\<rparr>, Inl FitzError,
        Inr \<lparr>colorspace = Some 3, samples = [10, 10, 10]\<rparr>, Inl OSError],
       close_result = None\<rparr>)
     = (([], [], 0),
        [CreateProgressBar, Progress 1 4, Render 0, Classified 0 Color,
         Progress 2 4, Render 1, ShowError FitzError]) \<and>
   analyze_pdf_desktop (Inr \<lparr>pages =
       [Inr \<lparr>colorspace = Some 3, samples = [200, 10, 10]\<rparr>, Inl FitzError,
        Inr \<lparr>colorspace = Some 3, samples = [10, 10, 10]\<rparr>, Inl OSError],
       close_result = None\<rparr>)
     = (([], []), [Render 0, Classified 0 Color, Render 1, ShowError FitzError]) \<and>
   analyze_pdf_app (Inr \<lparr>pages =
       [Inl FitzError, Inr \<lparr>colorspace = Some 3, samples = [200, 10, 10]\<rparr>],
       close_result = None\<rparr>)
     = (([], [], 0), [CreateProgressBar, Progress 1 2, Render 0, ShowError FitzError]) \<and>
   analyze_pdf_app (Inl OSError) = (([], [], 0), [ShowError OSError]) \<and>
   analyze_pdf_desktop (Inl OSError) = (([], []), [ShowError OSError])"
proof -
  let ?doc = "\<lparr>pages =
       [Inr \<lparr>colorspace = Some 3, samples = [200, 10, 10]\<rparr>, Inl FitzError,
        Inr \<lparr>colorspace = Some 3, samples = [10, 10, 10]\<rparr>, Inl OSError],
       close_result = None\<rparr>"
  let ?doc2 = "\<lparr>pages =
       [Inl FitzError, Inr \<lparr>colorspace = Some 3, samples = [200, 10, 10]\<rparr>],
       close_result = None\<rparr>"
  note inst = failure_returns_empty_result [of OSError ?doc]
  have a: "analyze_pdf_app (Inr ?doc) = (([], [], 0),
        [CreateProgressBar, Progress 1 4, Render 0, Classified 0 Color,
         Progress 2 4, Render 1, ShowError FitzError])"
    by (simp add: analyze_pdf_app_def app_try_def process_page_def render_page_def
        classify_page_def sample_loop_step sampled_differ_def rgb_differ_def upt_rec)
  have b: "analyze_pdf_desktop (Inr ?doc) =
        (([], []), [Render 0, Classified 0 Color, Render 1, ShowError FitzError])"
    by (simp add: analyze_pdf_desktop_def desktop_try_def process_page_def render_page_def
        classify_page_def sample_loop_step sampled_differ_def rgb_differ_def upt_rec)
  have c: "analyze_pdf_app (Inr ?doc2) =
        (([], [], 0), [CreateProgressBar, Progress 1 2, Render 0, ShowError FitzError])"
    by (simp add: analyze_pdf_app_def app_try_def process_page_def render_page_def upt_rec)
  from inst a b c show ?thesis by simp
qed

text \<open>
  Claim C8, as stated, fails: \<^verbatim>\<open>app.py\<close> updates the progress bar at the start of
  each iteration, before the page is loaded. For a document of one page the update that
  reports 1 of 1 pages precedes the rendering and the classification of that page.
\<close>

theorem progress_precedes_rendering:
  "snd (analyze_pdf_app (Inr \<lparr>pages = [Inr \<lparr>colorspace = Some 3, samples = [10, 10, 10]\<rparr>],
       close_result = None\<rparr>))
     = [CreateProgressBar, Progress 1 1, Render 0, Classified 0 Monochrome, Close] \<and>
   \<not> progress_after_classification
       (snd (analyze_pdf_app (Inr \<lparr>pages = [Inr \<lparr>colorspace = Some 3, samples = [10, 10, 10]\<rparr>],
          close_result = None\<rparr>)))"
proof -
  let ?log = "[CreateProgressBar, Progress 1 1, Render 0, Classified 0 Monochrome, Close]"
  have log: "snd (analyze_pdf_app (Inr \<lparr>pages =
        [Inr \<lparr>colorspace = Some 3, samples = [10, 10, 10]\<rparr>], close_result = None\<rparr>)) = ?log"
    by (simp add: analyze_pdf_app_def app_try_def process_page_def render_page_def
        classify_page_def sample_loop_step sampled_differ_def rgb_differ_def upt_rec)
  have "\<not> progress_after_classification ?log"
  proof
    assume "progress_after_classification ?log"
    then have "?log ! 1 = Progress 1 1 \<longrightarrow> (\<exists>i<1. \<exists>c. ?log ! i = Classified (1 - 1) c)"
      unfolding progress_after_classification_def by (metis One_nat_def length_Cons less_Suc_eq_0_disj lessI)
    then show False by simp
  qed
  with log show ?thesis by simp
qed

lemma filter_progress_events:
  "filter is_progress (concat (map (app_page_events doc n) idx)) =
     map (\<lambda>i. Progress (i + 1) n) idx"
  by (induction idx) (simp_all add: app_page_events_def)

text \<open>
  Claim C8, amended. In a scan by \<^verbatim>\<open>app.py\<close> in which every page renders, each page
  index in ascending order contributes three effects in a row: the update of the progress
  bar with \<open>index + 1\<close> of the page count, then the rendering of the page, then its
  classification; the clean-up follows, and the report of its exception if it raises. So
  the bar is updated exactly once per page, with the counts 1, 2, ... in increasing
  order, and each update comes before its page is rendered and after the page before it
  was classified.
\<close>

theorem progress_once_per_page_before_rendering:
  assumes "\<forall>p\<in>set (pages doc). \<not> isl p"
  shows "snd (analyze_pdf_app (Inr doc)) =
      CreateProgressBar
        # concat (map (\<lambda>i. [Progress (i + 1) (length (pages doc)), Render i,
                            Classified i (class_at doc i)]) [0..<length (pages doc)])
        @ Close # (case close_result doc of None \<Rightarrow> [] | Some e \<Rightarrow> [ShowError e]) \<and>
    filter is_progress (snd (analyze_pdf_app (Inr doc))) =
      map (\<lambda>i. Progress (i + 1) (length (pages doc))) [0..<length (pages doc)]"
proof -
  have log: "snd (analyze_pdf_app (Inr doc)) =
      CreateProgressBar
        # concat (map (app_page_events doc (length (pages doc))) [0..<length (pages doc)])
        @ Close # (case close_result doc of None \<Rightarrow> [] | Some e \<Rightarrow> [ShowError e])"
    by (cases "close_result doc")
      (simp_all add: analyze_pdf_app_def app_try_rendered[OF assms])
  have shape: "app_page_events doc (length (pages doc)) =
      (\<lambda>i. [Progress (i + 1) (length (pages doc)), Render i, Classified i (class_at doc i)])"
    by (rule ext) (simp add: app_page_events_def)
  have "filter is_progress (snd (analyze_pdf_app (Inr doc))) =
      map (\<lambda>i. Progress (i + 1) (length (pages doc))) [0..<length (pages doc)]"
    unfolding log by (cases "close_result doc") (simp_all add: filter_progress_events)
  with log shape show ?thesis by simp
qed

theorem progress_once_per_page_before_rendering_witness:
  "snd (analyze_pdf_app (Inr \<lparr>pages =
       [Inr \<lparr>colorspace = Some 3, samples = [200, 10, 10]\<rparr>,
        Inr \<lparr>colorspace = None, samples = []\<rparr>], close_result = None\<rparr>))
     = [CreateProgressBar, Progress 1 2, Render 0, Classified 0 Color,
        Progress 2 2, Render 1, Classified 1 Monochrome, Close] \<and>
   snd (analyze_pdf_app (Inr \<lparr>pages =
       [Inr \<lparr>colorspace = Some 3, samples = [200, 10, 10]\<rparr>,
        Inr \<lparr>colorspace = None, samples = []\<rparr>], close_result = Some OSError\<rparr>))
     = [CreateProgressBar, Progress 1 2, Render 0, Classified 0 Color,
        Progress 2 2, Render 1, Classified 1 Monochrome, Close, ShowError OSError] \<and>
   filter is_progress (snd (analyze_pdf_app (Inr \<lparr>pages =
       [Inr \<lparr>colorspace = Some 3, samples = [200, 10, 10]\<rparr>,
        Inr \<lparr>colorspace = None, samples = []\<rparr>], close_result = Some OSError\<rparr>)))
     = [Progress 1 2, Progress 2 2]"
  using progress_once_per_page_before_rendering [of "\<lparr>pages =
       [Inr \<lparr>colorspace = Some 3, samples = [200, 10, 10]\<rparr>,
        Inr \<lparr>colorspace = None, samples = []\<rparr>], close_result = None\<rparr>"]
    progress_once_per_page_before_rendering [of "\<lparr>pages =
       [Inr \<lparr>colorspace = Some 3, samples = [200, 10, 10]\<rparr>,
        Inr \<lparr>colorspace = None, samples = []\<rparr>], close_result = Some OSError\<rparr>"]
  by (simp add: class_at_def render_page_def page_class_def classify_page_def
      sample_loop_step sampled_differ_def rgb_differ_def upt_rec)

section \<open>The page-range formatter against its specification\<close>

lemma runs_Cons_obtain: "\<exists>r rs. runs (x # xs) = r # rs"
proof (induction xs arbitrary: x)
  case Nil
  show ?case by simp
next
  case (Cons y ys)
  obtain r rs where "runs (y # ys) = r # rs"
    using Cons.IH by blast
  then show ?case by (cases "y = x + 1") simp_all
qed

lemma runs_first:
  "runs (x # xs) = r # rs \<Longrightarrow> r \<noteq> [] \<and> hd r = x \<and> last r = x + int (length r) - 1"
proof (induction xs arbitrary: x r rs)
  case Nil
  then show ?case by auto
next
  case (Cons y ys)
  obtain r' rs' where r': "runs (y # ys) = r' # rs'"
    using runs_Cons_obtain by blast
  from Cons.IH[OF r'] have ih: "r' \<noteq> []" "hd r' = y" "last r' = y + int (length r') - 1"
    by simp_all
  show ?case
  proof (cases "y = x + 1")
    case True
    with Cons.prems r' have "r = x # r'" by simp
    with ih True show ?thesis by simp
  next
    case False
    with Cons.prems have "r = [x]" by simp
    then show ?thesis by simp
  qed
qed

lemma render_run_first:
  assumes "runs (x # xs) = r # rs"
  shows "render_run r = range_text x (last r)"
proof -
  from runs_first[OF assms] have r: "r \<noteq> []" "hd r = x" "last r = x + int (length r) - 1"
    by simp_all
  then have "length r = 1 \<longleftrightarrow> x = last r"
    by (cases r) auto
  with r show ?thesis
    by (simp add: render_run_def range_text_def)
qed

lemma format_loop_step:
  "i < length page_list \<Longrightarrow>
   format_loop page_list i start end result =
     (if page_list ! i = end + 1 then format_loop page_list (i + 1) start (page_list ! i) result
      else format_loop page_list (i + 1) (page_list ! i) (page_list ! i)
             (result @ [range_text start end]))"
  by (subst format_loop.simps) (simp add: getitem_def)

lemma format_loop_done:
  "length page_list \<le> i \<Longrightarrow> format_loop page_list i start end result = Inr (start, end, result)"
  by (subst format_loop.simps) simp

lemma format_loop_runs:
  assumes "i \<le> length page_list"
  shows "\<exists>start' end' result'.
      format_loop page_list i start end result = Inr (start', end', result') \<and>
      result' @ [range_text start' end'] =
        result @ (case runs (end # drop i page_list) of
                    [] \<Rightarrow> []
                  | r # rs \<Rightarrow> range_text start (last r) # map render_run rs)"
  using assms
proof (induction "length page_list - i" arbitrary: i start "end" result rule: less_induct)
  case less
  show ?case
  proof (cases "i < length page_list")
    case False
    with less.prems have "drop i page_list = []" by simp
    with False show ?thesis
      by (simp add: format_loop_done)
  next
    case True
    define p where "p = page_list ! i"
    define rest where "rest = drop (Suc i) page_list"
    have drop: "drop i page_list = p # rest"
      using True by (simp add: p_def rest_def Cons_nth_drop_Suc)
    obtain r rs where r: "runs (p # rest) = r # rs"
      using runs_Cons_obtain by blast
    have rne: "r \<noteq> []" using runs_first[OF r] by simp
    have less': "length page_list - (i + 1) < length page_list - i" "i + 1 \<le> length page_list"
      using True by simp_all
    show ?thesis
    proof (cases "p = end + 1")
      case cont: True
      obtain s' e' r' where ih:
        "format_loop page_list (i + 1) start p result = Inr (s', e', r')"
        "r' @ [range_text s' e'] =
           result @ (case runs (p # drop (i + 1) page_list) of
                       [] \<Rightarrow> []
                     | r # rs \<Rightarrow> range_text start (last r) # map render_run rs)"
        using less.hyps[OF less', of start p result] by blast
      have "format_loop page_list i start end result = Inr (s', e', r')"
        using True cont ih(1) by (simp add: format_loop_step p_def)
      moreover have "r' @ [range_text s' e'] =
           result @ (case runs (end # drop i page_list) of
                       [] \<Rightarrow> []
                     | r # rs \<Rightarrow> range_text start (last r) # map render_run rs)"
        using ih(2) cont r rne by (simp add: drop rest_def)
      ultimately show ?thesis by blast
    next
      case stop: False
      obtain s' e' r' where ih:
        "format_loop page_list (i + 1) p p (result @ [range_text start end]) = Inr (s', e', r')"
        "r' @ [range_text s' e'] =
           (result @ [range_text start end]) @
             (case runs (p # drop (i + 1) page_list) of
                [] \<Rightarrow> []
              | r # rs \<Rightarrow> range_text p (last r) # map render_run rs)"
        using less.hyps[OF less', of p p "result @ [range_text start end]"] by blast
      have "format_loop page_list i start end result = Inr (s', e', r')"
        using True stop ih(1) by (simp add: format_loop_step p_def)
      moreover have "r' @ [range_text s' e'] =
           result @ (case runs (end # drop i page_list) of
                       [] \<Rightarrow> []
                     | r # rs \<Rightarrow> range_text start (last r) # map render_run rs)"
        using ih(2) stop r render_run_first[OF r] by (simp add: drop rest_def)
      ultimately show ?thesis by blast
    qed
  qed
qed

lemma format_page_list_spec:
  "format_page_list page_list = Inr (spec_format page_list, sort page_list)"
proof (cases "page_list = []")
  case True
  then show ?thesis
    by (simp add: format_page_list_def spec_format_def)
next
  case False
  then have "sort page_list \<noteq> []"
    by (metis length_sort length_0_conv)
  then obtain x rest where sorted: "sort page_list = x # rest"
    by (cases "sort page_list") auto
  obtain r rs where r: "runs (x # rest) = r # rs"
    using runs_Cons_obtain by blast
  obtain s' e' r' where loop:
    "format_loop (x # rest) 1 x x [] = Inr (s', e', r')"
    "r' @ [range_text s' e'] =
       [] @ (case runs (x # drop 1 (x # rest)) of
               [] \<Rightarrow> []
             | r # rs \<Rightarrow> range_text x (last r) # map render_run rs)"
    using format_loop_runs[of 1 "x # rest" x x "[]"] by auto
  have "r' @ [range_text s' e'] = map render_run (runs (x # rest))"
    using loop(2) r render_run_first[OF r] by simp
  then show ?thesis
    using False sorted loop(1)
    by (simp add: format_page_list_def spec_format_def getitem_def Let_def)
qed

lemma runs_concat: "concat (runs xs) = xs"
proof (induction xs rule: runs.induct)
  case 1
  show ?case by simp
next
  case (2 x)
  show ?case by simp
next
  case (3 x y zs)
  obtain r rs where r: "runs (y # zs) = r # rs"
    using runs_Cons_obtain by blast
  with 3 show ?case by (cases "y = x + 1") simp_all
qed

lemma runs_consecutive: "r \<in> set (runs xs) \<Longrightarrow> r \<noteq> [] \<and> consecutive r"
proof (induction xs arbitrary: r rule: runs.induct)
  case 1
  then show ?case by simp
next
  case (2 x)
  then show ?case by simp
next
  case (3 x y zs)
  obtain r' rs where r': "runs (y # zs) = r' # rs"
    using runs_Cons_obtain by blast
  from runs_first[OF r'] obtain t where t: "r' = y # t"
    by (cases r') auto
  show ?case
  proof (cases "y = x + 1")
    case True
    with "3.prems" r' have "r = x # r' \<or> r \<in> set rs" by auto
    then show ?thesis
    proof
      assume "r = x # r'"
      moreover have "consecutive r'" using "3.IH"(1)[OF True, of r'] r' by simp
      ultimately show ?thesis using True t by simp
    next
      assume "r \<in> set rs"
      then show ?thesis using "3.IH"(1)[OF True, of r] r' by simp
    qed
  next
    case False
    with "3.prems" have "r = [x] \<or> r \<in> set (runs (y # zs))" by auto
    then show ?thesis
    proof
      assume "r = [x]"
      then show ?thesis by simp
    next
      assume "r \<in> set (runs (y # zs))"
      then show ?thesis using "3.IH"(2)[OF False, of r] by simp
    qed
  qed
qed

lemma runs_separated: "separated (runs xs)"
proof (induction xs rule: runs.induct)
  case 1
  show ?case by simp
next
  case (2 x)
  show ?case by simp
next
  case (3 x y zs)
  obtain r rs where r: "runs (y # zs) = r # rs"
    using runs_Cons_obtain by blast
  from runs_first[OF r] have first: "r \<noteq> []" "hd r = y" by simp_all
  show ?case
  proof (cases "y = x + 1")
    case True
    with "3.IH"(1) r have "separated (r # rs)" by simp
    then have "separated ((x # r) # rs)"
      using first by (cases rs) simp_all
    with True r show ?thesis by simp
  next
    case False
    with "3.IH"(2) r have "separated (r # rs)" by simp
    with False r first show ?thesis by simp
  qed
qed

lemma sort_mset_cong: "mset xs = mset ys \<Longrightarrow> sort xs = sort (ys :: int list)"
  by (rule properties_for_sort) simp_all

text \<open>
  Claim C5. For every list of page numbers, in any order, \<^verbatim>\<open>format_page_list\<close>
  returns the string of the specification: the numbers sorted ascending, grouped into
  maximal runs of consecutive integers (\<open>runs_concat\<close>, \<open>runs_consecutive\<close>,
  \<open>runs_separated\<close>), a run of length 1 rendered as its number and a longer one as
  first-last, joined with a comma and a space. Two lists with the same elements give
  the same string, the empty list gives the empty string, and 1, 2, 3, 5, 7, 8 gives
  \<open>1-3, 5, 7-8\<close>.
\<close>

theorem format_page_list_sorted_runs:
  "(\<exists>after. format_page_list page_list = Inr (spec_format page_list, after)) \<and>
   (mset other = mset page_list \<longrightarrow>
      map_sum id fst (format_page_list other) = map_sum id fst (format_page_list page_list)) \<and>
   format_page_list [] = Inr ([], []) \<and>
   format_page_list [1, 2, 3, 5, 7, 8] = Inr (''1-3, 5, 7-8'', [1, 2, 3, 5, 7, 8])"
proof -
  have a: "\<exists>after. format_page_list page_list = Inr (spec_format page_list, after)"
    by (simp add: format_page_list_spec)
  have b: "mset other = mset page_list \<longrightarrow>
      map_sum id fst (format_page_list other) = map_sum id fst (format_page_list page_list)"
    by (auto simp: format_page_list_spec spec_format_def dest: sort_mset_cong)
  have c: "format_page_list [] = Inr ([], [])"
    by (simp add: format_page_list_def)
  have d: "format_page_list [1, 2, 3, 5, 7, 8] = Inr (''1-3, 5, 7-8'', [1, 2, 3, 5, 7, 8])"
    by code_simp
  from a b c d show ?thesis by blast
qed

theorem format_page_list_sorted_runs_witness:
  "format_page_list [5, 1, 3, 2, 4] = Inr (''1-5'', [1, 2, 3, 4, 5]) \<and>
   map_sum id fst (format_page_list [5, 1, 3, 2, 4])
     = map_sum id fst (format_page_list [1, 2, 3, 4, 5]) \<and>
   spec_format [5, 1, 3, 2, 4] = ''1-5''"
proof -
  have m: "mset [5, 1, 3, 2, 4] = mset [1, 2, 3, 4, 5 :: int]"
    by (simp add: add_mset_commute)
  have e: "format_page_list [5, 1, 3, 2, 4] = Inr (''1-5'', [1, 2, 3, 4, 5])"
    by code_simp
  have s: "spec_format [5, 1, 3, 2, 4] = ''1-5''"
    using format_page_list_sorted_runs [of "[5, 1, 3, 2, 4]" "[1, 2, 3, 4, 5]"] e by simp
  show ?thesis
    using format_page_list_sorted_runs [of "[1, 2, 3, 4, 5]" "[5, 1, 3, 2, 4]"] m e s by simp
qed

text \<open>
  Claim C9, as stated, fails: \<^verbatim>\<open>page_list.sort()\<close> sorts the list object of the
  caller, so after a call on the list 2, 1 that list holds 1, 2.
\<close>

theorem format_page_list_reorders_input:
  "format_page_list [2, 1] = Inr (''1-2'', [1, 2]) \<and>
   \<not> (\<forall>page_list s after. format_page_list page_list = Inr (s, after) \<longrightarrow> after = page_list)"
proof -
  have e: "format_page_list [2, 1] = Inr (''1-2'', [1, 2])"
    by code_simp
  have "\<not> (\<forall>page_list s after. format_page_list page_list = Inr (s, after) \<longrightarrow> after = page_list)"
  proof
    assume "\<forall>page_list s after. format_page_list page_list = Inr (s, after) \<longrightarrow> after = page_list"
    with e have "[1, 2] = [2, 1 :: int]" by blast
    then show False by simp
  qed
  with e show ?thesis by simp
qed

text \<open>
  Claim C9, amended. \<^verbatim>\<open>format_page_list\<close> is total and deterministic: for every
  list of integers it returns a string and raises no exception, and the string is a
  function of the list (a second call on the list as the first call left it returns the
  same string). Its one side effect is that the caller's list is sorted ascending in
  place, so the list is left unchanged exactly when it was sorted already.
\<close>

theorem format_page_list_total_and_sorts:
  "(\<exists>s. format_page_list page_list = Inr (s, sort page_list) \<and>
        format_page_list (sort page_list) = Inr (s, sort page_list)) \<and>
   (sort page_list = page_list \<longleftrightarrow> sorted page_list)"
proof -
  have "sort page_list = page_list \<longleftrightarrow> sorted page_list"
    by (metis sorted_sort sorted_sort_id)
  moreover have "sort (sort page_list) = sort page_list"
    by (simp add: sorted_sort_id)
  ultimately show ?thesis
    by (simp add: format_page_list_spec spec_format_def)
qed

theorem format_page_list_total_and_sorts_witness:
  "format_page_list [3, 1, 2] = Inr (''1-3'', [1, 2, 3]) \<and>
   format_page_list [1, 2, 3] = Inr (''1-3'', [1, 2, 3]) \<and>
   sort [3, 1, 2 :: int] = [1, 2, 3]"
proof -
  have e: "format_page_list [3, 1, 2] = Inr (''1-3'', [1, 2, 3])"
    "format_page_list [1, 2, 3] = Inr (''1-3'', [1, 2, 3])"
    by code_simp+
  show ?thesis
    using format_page_list_total_and_sorts [of "[3, 1, 2]"] e by auto
qed

end
